theory Spec2Isabelle
  imports Main "HOL-Library.Word"
begin

section \<open>ui/gfx/screen_gtk.cc: display queries over GDK\<close>

text \<open>
  GDK and the gfx geometry classes are external to the file. What the file reads from
  GDK is a record of the answers GDK gives; the gfx rectangle operations it calls are
  a record of functions over an arbitrary rectangle type \<open>'r\<close>.
\<close>

record GdkRectangle =
  gdk_x :: int
  gdk_y :: int
  gdk_width :: int
  gdk_height :: int

text \<open>The reply of \<open>gdk_property_get\<close> for \<open>_NET_WORKAREA\<close>: the byte length and
  the array of longs behind \<open>raw_data\<close>.\<close>

record GdkProperty =
  data_len :: int
  raw_data :: "nat \<Rightarrow> int"

record GdkScreen =
  n_monitors :: nat \<comment> \<open>the count \<open>gdk_screen_get_n_monitors\<close> reports\<close>
  monitor_geometry :: "int \<Rightarrow> GdkRectangle"
  primary_monitor :: int
  net_workarea :: "GdkProperty option" \<comment> \<open>\<open>None\<close>: \<open>gdk_property_get\<close> returned false\<close>
  monitor_at_point :: "int \<Rightarrow> int \<Rightarrow> int"

record 'r gfx =
  RectFromGdk :: "GdkRectangle \<Rightarrow> 'r" \<comment> \<open>\<open>gfx::Rect(const GdkRectangle&)\<close>\<close>
  MakeRect :: "int \<Rightarrow> int \<Rightarrow> int \<Rightarrow> int \<Rightarrow> 'r" \<comment> \<open>\<open>Rect::SetRect\<close> on a default rectangle\<close>
  IntersectRects :: "'r \<Rightarrow> 'r \<Rightarrow> 'r"

text \<open>\<open>gfx::Display\<close>, whose class is external to the file too: the constructor
  \<open>Display(id, bounds)\<close> stores the id and the bounds and starts with the work area
  equal to the bounds; \<open>set_work_area\<close> replaces the work area.\<close>

record 'r Display =
  display_id :: int
  bounds :: 'r
  work_area :: 'r

definition sizeof_glong :: int where
  "sizeof_glong = 8"

text \<open>The conversion \<open>gint x = data[i]\<close> from a long to a 32-bit int.\<close>

definition gint_of_glong :: "int \<Rightarrow> int" where
  "gint_of_glong v = sint (word_of_int v :: 32 word)"

definition gdk_screen_get_n_monitors :: "GdkScreen \<Rightarrow> int" where
  "gdk_screen_get_n_monitors screen = int (n_monitors screen)"

text \<open>\<open>GetScreenWorkArea\<close>: \<open>None\<close> is the return value false, \<open>Some r\<close> is true with
  \<open>*out_rect = r\<close>.\<close>

definition GetScreenWorkArea :: "'r gfx \<Rightarrow> GdkScreen \<Rightarrow> 'r option" where
  "GetScreenWorkArea g screen =
     (case net_workarea screen of
        None \<Rightarrow> None
      | Some prop \<Rightarrow>
          if data_len prop < 4 * sizeof_glong then None
          else Some (MakeRect g (gint_of_glong (raw_data prop 0))
                                (gint_of_glong (raw_data prop 1))
                                (gint_of_glong (raw_data prop 2))
                                (gint_of_glong (raw_data prop 3))))"

definition GetDisplayForMonitorNum :: "'r gfx \<Rightarrow> GdkScreen \<Rightarrow> int \<Rightarrow> 'r Display" where
  "GetDisplayForMonitorNum g screen monitor_num =
     (let b = RectFromGdk g (monitor_geometry screen monitor_num);
          display = \<lparr>display_id = monitor_num, bounds = b, work_area = b\<rparr>
      in if primary_monitor screen = monitor_num then
           (case GetScreenWorkArea g screen of
              Some rect \<Rightarrow> display\<lparr>work_area := IntersectRects g rect (bounds display)\<rparr>
            | None \<Rightarrow> display)
         else display)"

definition GetNumDisplays :: "GdkScreen \<Rightarrow> int" where
  "GetNumDisplays screen = gdk_screen_get_n_monitors screen"

text \<open>The loop \<open>for (gint i = 0; i < num_of_displays; ++i) all_displays.push_back(...)\<close>.\<close>

function GetAllDisplays_loop ::
  "'r gfx \<Rightarrow> GdkScreen \<Rightarrow> int \<Rightarrow> int \<Rightarrow> 'r Display list \<Rightarrow> 'r Display list" where
  "GetAllDisplays_loop g screen num_of_displays i all_displays =
     (if i < num_of_displays
      then GetAllDisplays_loop g screen num_of_displays (i + 1)
             (all_displays @ [GetDisplayForMonitorNum g screen i])
      else all_displays)"
  by pat_completeness auto
termination
  by (relation "measure (\<lambda>(g, screen, n, i, acc). nat (n - i))") auto

declare GetAllDisplays_loop.simps [simp del]

definition GetAllDisplays :: "'r gfx \<Rightarrow> GdkScreen \<Rightarrow> 'r Display list" where
  "GetAllDisplays g screen =
     GetAllDisplays_loop g screen (gdk_screen_get_n_monitors screen) 0 []"

definition GetPrimaryDisplay :: "'r gfx \<Rightarrow> GdkScreen \<Rightarrow> 'r Display" where
  "GetPrimaryDisplay g screen = GetDisplayForMonitorNum g screen (primary_monitor screen)"

definition GetDisplayMatching :: "'r gfx \<Rightarrow> GdkScreen \<Rightarrow> 'r \<Rightarrow> 'r Display" where
  "GetDisplayMatching g screen match_rect = GetPrimaryDisplay g screen"

definition GetDisplayNearestPoint :: "'r gfx \<Rightarrow> GdkScreen \<Rightarrow> int \<Rightarrow> int \<Rightarrow> 'r Display" where
  "GetDisplayNearestPoint g screen px py =
     GetDisplayForMonitorNum g screen (monitor_at_point screen px py)"

text \<open>A concrete rectangle type and a concrete screen with two monitors, for evaluation.\<close>

definition gdk_gfx :: "GdkRectangle gfx" where
  "gdk_gfx = \<lparr>RectFromGdk = (\<lambda>r. r),
              MakeRect = (\<lambda>x y w h. \<lparr>gdk_x = x, gdk_y = y, gdk_width = w, gdk_height = h\<rparr>),
              IntersectRects = (\<lambda>a b. b)\<rparr>"

definition two_monitors :: GdkScreen where
  "two_monitors =
     \<lparr>n_monitors = 2,
      monitor_geometry = (\<lambda>i. \<lparr>gdk_x = 1920 * i, gdk_y = 0, gdk_width = 1920, gdk_height = 1080\<rparr>),
      primary_monitor = 0,
      net_workarea = None,
      monitor_at_point = (\<lambda>x y. if x < 1920 then 0 else 1)\<rparr>"

section \<open>chrome/browser/dom_ui/app_launcher_handler.cc: launch pings\<close>

definition kLaunchAppPingURL :: string where
  "kLaunchAppPingURL = ''record-app-launch''"

definition kLaunchWebStorePingURL :: string where
  "kLaunchWebStorePingURL = ''record-webstore-launch''"

text \<open>\<open>std::string::find\<close>: the first position at which the needle occurs, \<open>None\<close> for
  \<open>npos\<close>.\<close>

fun starts_with :: "string \<Rightarrow> string \<Rightarrow> bool" where
  "starts_with hay [] = True"
| "starts_with [] (n # ns) = False"
| "starts_with (h # hs) (n # ns) = (h = n \<and> starts_with hs ns)"

fun string_find :: "string \<Rightarrow> string \<Rightarrow> nat option" where
  "string_find [] needle = (if needle = [] then Some 0 else None)"
| "string_find (c # cs) needle =
     (if starts_with (c # cs) needle then Some 0 else map_option Suc (string_find cs needle))"

text \<open>A failed \<open>CHECK\<close> ends the process.\<close>

datatype fatal = CheckFailed

text \<open>The samples the handler adds to the histogram \<open>kAppsPromoHistogram\<close>.\<close>

datatype promo_bucket = PROMO_LAUNCH_APP | PROMO_LAUNCH_WEB_STORE

text \<open>\<open>IsPromoActive\<close>. \<open>base::SplitString\<close> is not part of the file: it is the parameter
  \<open>SplitString\<close>, called with the path and the separator.\<close>

definition IsPromoActive :: "(string \<Rightarrow> char \<Rightarrow> string list) \<Rightarrow> string \<Rightarrow> fatal + bool" where
  "IsPromoActive SplitString path =
     (let params = SplitString path CHR ''+''
      in if length params = 2 then Inr (params ! 1 = ''true'') else Inl CheckFailed)"

definition RecordWebStoreLaunch :: "bool \<Rightarrow> promo_bucket list" where
  "RecordWebStoreLaunch promo_active = (if \<not> promo_active then [] else [PROMO_LAUNCH_WEB_STORE])"

definition RecordAppLaunch :: "bool \<Rightarrow> promo_bucket list" where
  "RecordAppLaunch promo_active = (if \<not> promo_active then [] else [PROMO_LAUNCH_APP])"

text \<open>\<open>HandlePing\<close> returns its boolean result with the histogram samples it recorded, or
  the failed check.\<close>

definition HandlePing ::
  "(string \<Rightarrow> char \<Rightarrow> string list) \<Rightarrow> string \<Rightarrow> fatal + (bool \<times> promo_bucket list)" where
  "HandlePing SplitString path =
     (if string_find path kLaunchWebStorePingURL \<noteq> None then
        (case IsPromoActive SplitString path of
           Inl f \<Rightarrow> Inl f
         | Inr promo \<Rightarrow> Inr (True, RecordWebStoreLaunch promo))
      else if string_find path kLaunchAppPingURL \<noteq> None then
        (case IsPromoActive SplitString path of
           Inl f \<Rightarrow> Inl f
         | Inr promo \<Rightarrow> Inr (True, RecordAppLaunch promo))
      else Inr (False, []))"

text \<open>A splitter for evaluation: it cuts at every separator, so it returns one more part
  than the string has separators.\<close>

fun split_at :: "char \<Rightarrow> string \<Rightarrow> string list" where
  "split_at d [] = [[]]"
| "split_at d (c # cs) =
     (if c = d then [] # split_at d cs
      else (case split_at d cs of [] \<Rightarrow> [[c]] | p # ps \<Rightarrow> (c # p) # ps))"

definition plain_split :: "string \<Rightarrow> char \<Rightarrow> string list" where
  "plain_split s d = split_at d s"

section \<open>ui/events/ozone/evdev/event_factory.h: the evdev event factory\<close>

text \<open>
  The header declares the class \<open>EventFactoryEvdev\<close>: its members and its three data
  fields. The bodies (\<open>event_factory.cc\<close>) are not among the sources, so the operations
  below follow the specification's description of them; each says so.
\<close>

type_synonym FilePath = string

text \<open>Modelled from the spec: a converter object (the class \<open>EventConverterEvdev\<close> is
  not among the sources): the device node it decodes and the open device handle it
  owns from its construction to its destruction.\<close>

record EventConverterEvdev =
  conv_path :: FilePath
  conv_fd :: int

text \<open>The data members of the class, named without the trailing underscore of the
  source. \<open>converters_\<close> maps a path to the address of the
  converter the factory owns for it (\<open>std::map<base::FilePath, EventConverterEvdev*>\<close>);
  \<open>udev_\<close> is the daemon connection, \<open>None\<close> while there is none; \<open>modifiers_\<close> is the
  modifier state, whose class is not among the sources.\<close>

record EventFactoryEvdev =
  converters :: "FilePath \<rightharpoonup> nat"
  udev :: "nat option"
  modifiers :: nat

text \<open>What a call to \<open>open\<close> on a device node can answer.\<close>

datatype open_error = PermissionDenied | DeviceVanished

datatype open_outcome = Opened int | OpenFailed open_error | NotADevicePath

text \<open>The factory inside its process: the converter objects that exist, each under its
  address, the next address the allocator hands out, and the error log.\<close>

record process =
  factory :: EventFactoryEvdev
  live_converters :: "(nat \<times> EventConverterEvdev) list"
  next_address :: nat
  error_log :: "(FilePath \<times> open_error) list"

text \<open>A violated contract ends the process (fail fast).\<close>

datatype fault = ContractViolation

definition new_process :: process where
  "new_process =
     \<lparr>factory = \<lparr>converters = Map.empty, udev = None, modifiers = 0\<rparr>,
      live_converters = [], next_address = 0, error_log = []\<rparr>"

text \<open>The converters that exist for a path.\<close>

definition live_for :: "FilePath \<Rightarrow> process \<Rightarrow> (nat \<times> EventConverterEvdev) list" where
  "live_for path s = filter (\<lambda>(a, c). conv_path c = path) (live_converters s)"

text \<open>Modelled from the spec: \<open>detach(path)\<close>, whose body and declaration are not among
  the sources. It removes and destroys the registry entry for the path, which releases
  the device handle the converter owns, and does nothing when the path has no entry.\<close>

definition detach :: "FilePath \<Rightarrow> process \<Rightarrow> process" where
  "detach path s =
     (case converters (factory s) path of
        None \<Rightarrow> s
      | Some a \<Rightarrow>
          s\<lparr>factory := (factory s)\<lparr>converters := (converters (factory s))(path := None)\<rparr>,
            live_converters := filter (\<lambda>(b, c). b \<noteq> a) (live_converters s)\<rparr>)"

text \<open>Modelled from the spec: the body of \<open>AttachInputDevice\<close>, which is not among the
  sources. It opens the device; a path that is no device node is a contract violation;
  a failed open is logged and the attach abandoned; otherwise a converter that exists
  for the path is detached first, and a new converter owning the descriptor is
  constructed and inserted under the path.\<close>

definition AttachInputDevice :: "FilePath \<Rightarrow> open_outcome \<Rightarrow> process \<Rightarrow> fault + process" where
  "AttachInputDevice file_path outcome s =
     (case outcome of
        NotADevicePath \<Rightarrow> Inl ContractViolation
      | OpenFailed e \<Rightarrow> Inr (s\<lparr>error_log := error_log s @ [(file_path, e)]\<rparr>)
      | Opened fd \<Rightarrow>
          (let s1 = detach file_path s;
               a = next_address s1
           in Inr (s1\<lparr>factory := (factory s1)
                          \<lparr>converters := (converters (factory s1))(file_path \<mapsto> a)\<rparr>,
                        live_converters := live_converters s1
                          @ [(a, \<lparr>conv_path = file_path, conv_fd = fd\<rparr>)],
                        next_address := Suc a\<rparr>)))"

text \<open>What a discovery strategy yields: a device to attach, with the answer \<open>open\<close>
  gives at that moment, or a device to detach.\<close>

datatype device_event = Add FilePath open_outcome | Remove FilePath

definition handle_event :: "device_event \<Rightarrow> process \<Rightarrow> fault + process" where
  "handle_event ev s =
     (case ev of
        Add path outcome \<Rightarrow> AttachInputDevice path outcome s
      | Remove path \<Rightarrow> Inr (detach path s))"

fun run_events :: "device_event list \<Rightarrow> process \<Rightarrow> fault + process" where
  "run_events [] s = Inr s"
| "run_events (ev # evs) s =
     (case handle_event ev s of Inl f \<Rightarrow> Inl f | Inr s' \<Rightarrow> run_events evs s')"

text \<open>An entry of the input-device directory.\<close>

record dir_entry =
  entry_path :: FilePath
  entry_is_chardev :: bool

text \<open>Modelled from the spec: the naming convention of input nodes, \<open>event*\<close> under the
  input-device directory.\<close>

definition is_input_node :: "FilePath \<Rightarrow> bool" where
  "is_input_node path = starts_with path ''/dev/input/event''"

text \<open>Modelled from the spec: the manual strategy's single pass over the directory,
  yielding the entries that are character devices with an input-node name.\<close>

fun manual_discovery :: "dir_entry list \<Rightarrow> FilePath list" where
  "manual_discovery [] = []"
| "manual_discovery (e # es) =
     (if entry_is_chardev e \<and> is_input_node (entry_path e)
      then entry_path e # manual_discovery es
      else manual_discovery es)"

text \<open>Modelled from the spec: the body of \<open>StartProcessingEventsManual\<close>: every path the
  pass yields is attached, and the strategy is complete.\<close>

definition StartProcessingEventsManual ::
  "dir_entry list \<Rightarrow> (FilePath \<Rightarrow> open_outcome) \<Rightarrow> process \<Rightarrow> fault + process" where
  "StartProcessingEventsManual dir open_device s =
     run_events (map (\<lambda>path. Add path (open_device path)) (manual_discovery dir)) s"




record environment =
  udev_connection :: nat
  udev_notifications :: "device_event list"
  input_directory :: "dir_entry list"
  open_device :: "FilePath \<Rightarrow> open_outcome"



text \<open>The registry and the converter objects agree: addresses are distinct and below
  the allocator's next one, every converter is the one registered for its path, and
  every registered address is a converter for that path.\<close>

definition registry_ok :: "process \<Rightarrow> bool" where
  "registry_ok s \<longleftrightarrow>
     distinct (map fst (live_converters s)) \<and>
     (\<forall>(a, c) \<in> set (live_converters s).
        converters (factory s) (conv_path c) = Some a \<and> a < next_address s) \<and>
     (\<forall>path a. converters (factory s) path = Some a \<longrightarrow>
        (\<exists>c. (a, c) \<in> set (live_converters s) \<and> conv_path c = path))"

text \<open>Two process states that differ at most in the error log.\<close>

definition same_devices :: "process \<Rightarrow> process \<Rightarrow> bool" where
  "same_devices s t \<longleftrightarrow>
     factory s = factory t \<and> live_converters s = live_converters t \<and>
     next_address s = next_address t"

text \<open>The notifications \<open>add(event2), add(event5), remove(event2), add(event2)\<close>, every
  open succeeding, and the state they lead to from a new factory.\<close>

definition daemon_scenario :: "device_event list" where
  "daemon_scenario =
     [Add ''/dev/input/event2'' (Opened 3), Add ''/dev/input/event5'' (Opened 4),
      Remove ''/dev/input/event2'', Add ''/dev/input/event2'' (Opened 5)]"

definition after_scenario :: process where
  "after_scenario = (case run_events daemon_scenario new_process of Inr s \<Rightarrow> s | Inl f \<Rightarrow> new_process)"

text \<open>The directory \<open>{event0, event3, mouse1}\<close> of character devices.\<close>

definition example_directory :: "dir_entry list" where
  "example_directory =
     [\<lparr>entry_path = ''/dev/input/event0'', entry_is_chardev = True\<rparr>,
      \<lparr>entry_path = ''/dev/input/event3'', entry_is_chardev = True\<rparr>,
      \<lparr>entry_path = ''/dev/input/mouse1'', entry_is_chardev = True\<rparr>]"










section \<open>Properties of the display queries\<close>

lemma GetAllDisplays_loop_length:
  "length (GetAllDisplays_loop g screen n i acc) = length acc + nat (n - i)"
proof (induction g screen n i acc rule: GetAllDisplays_loop.induct)
  case (1 g screen n i acc)
  show ?case
  proof (cases "i < n")
    case True
    with 1 show ?thesis by (subst GetAllDisplays_loop.simps) simp
  next
    case False
    then show ?thesis by (subst GetAllDisplays_loop.simps) simp
  qed
qed

lemma GetAllDisplays_loop_nth:
  assumes "\<And>k. k < length acc \<Longrightarrow> display_id (acc ! k) = i - int (length acc) + int k"
  shows "k < length (GetAllDisplays_loop g screen n i acc) \<Longrightarrow>
         display_id (GetAllDisplays_loop g screen n i acc ! k) = i - int (length acc) + int k"
  using assms
proof (induction g screen n i acc arbitrary: k rule: GetAllDisplays_loop.induct)
  case (1 g screen n i acc)
  show ?case
  proof (cases "i < n")
    case True
    let ?acc = "acc @ [GetDisplayForMonitorNum g screen i]"
    have step: "GetAllDisplays_loop g screen n i acc = GetAllDisplays_loop g screen n (i + 1) ?acc"
      using True by (subst GetAllDisplays_loop.simps) simp
    have inv: "display_id (?acc ! j) = (i + 1) - int (length ?acc) + int j"
      if "j < length ?acc" for j
    proof (cases "j < length acc")
      case True
      then show ?thesis using "1.prems"(2)[of j] by (simp add: nth_append)
    next
      case False
      with that have "j = length acc" by simp
      then show ?thesis by (simp add: GetDisplayForMonitorNum_def Let_def split: option.splits)
    qed
    have "display_id (GetAllDisplays_loop g screen n (i + 1) ?acc ! k)
            = (i + 1) - int (length ?acc) + int k"
      using "1.IH"[OF True, of k] "1.prems"(1) inv step by simp
    then show ?thesis using step by simp
  next
    case False
    then have "GetAllDisplays_loop g screen n i acc = acc"
      by (subst GetAllDisplays_loop.simps) simp
    then show ?thesis using "1.prems" by simp
  qed
qed

text \<open>
  Claim C8. For every screen state, \<open>GetAllDisplays\<close> returns a vector whose length is
  the value \<open>GetNumDisplays\<close> returns (the GDK monitor count), and the display at
  position \<open>i\<close> has display id \<open>i\<close>, its monitor number.
\<close>

theorem GetAllDisplays_length_and_ids:
  "int (length (GetAllDisplays g screen)) = GetNumDisplays screen \<and>
   (\<forall>i < length (GetAllDisplays g screen). display_id (GetAllDisplays g screen ! i) = int i)"
proof
  show "int (length (GetAllDisplays g screen)) = GetNumDisplays screen"
    by (simp add: GetAllDisplays_def GetNumDisplays_def gdk_screen_get_n_monitors_def
        GetAllDisplays_loop_length)
next
  show "\<forall>i < length (GetAllDisplays g screen). display_id (GetAllDisplays g screen ! i) = int i"
  proof (intro allI impI)
    fix i assume "i < length (GetAllDisplays g screen)"
    then show "display_id (GetAllDisplays g screen ! i) = int i"
      unfolding GetAllDisplays_def
      using GetAllDisplays_loop_nth[of "[]" 0 i g screen "gdk_screen_get_n_monitors screen"]
      by simp
  qed
qed

theorem GetAllDisplays_length_and_ids_witness:
  "length (GetAllDisplays gdk_gfx two_monitors) = 2 \<and>
   display_id (GetAllDisplays gdk_gfx two_monitors ! 0) = 0 \<and>
   display_id (GetAllDisplays gdk_gfx two_monitors ! 1) = 1"
proof -
  note t = GetAllDisplays_length_and_ids[of gdk_gfx two_monitors]
  have n: "GetNumDisplays two_monitors = 2"
    by (simp add: GetNumDisplays_def gdk_screen_get_n_monitors_def two_monitors_def)
  from t n have len: "length (GetAllDisplays gdk_gfx two_monitors) = 2" by simp
  from t len show ?thesis by simp
qed

text \<open>
  Claim C9. For every rectangle \<open>match_rect\<close>, \<open>GetDisplayMatching\<close> returns exactly what
  \<open>GetPrimaryDisplay\<close> returns: the result is the same for any two rectangles.
\<close>

theorem GetDisplayMatching_is_primary:
  "GetDisplayMatching g screen match_rect = GetPrimaryDisplay g screen \<and>
   GetDisplayMatching g screen match_rect = GetDisplayMatching g screen other_rect"
  by (simp add: GetDisplayMatching_def)

theorem GetDisplayMatching_is_primary_witness:
  "GetDisplayMatching gdk_gfx two_monitors
     \<lparr>gdk_x = 2000, gdk_y = 0, gdk_width = 100, gdk_height = 100\<rparr>
   = \<lparr>display_id = 0,
      bounds = \<lparr>gdk_x = 0, gdk_y = 0, gdk_width = 1920, gdk_height = 1080\<rparr>,
      work_area = \<lparr>gdk_x = 0, gdk_y = 0, gdk_width = 1920, gdk_height = 1080\<rparr>\<rparr>"
  using GetDisplayMatching_is_primary
    [of gdk_gfx two_monitors "\<lparr>gdk_x = 2000, gdk_y = 0, gdk_width = 100, gdk_height = 100\<rparr>"]
  by (simp add: GetPrimaryDisplay_def GetDisplayForMonitorNum_def GetScreenWorkArea_def
      gdk_gfx_def two_monitors_def Let_def)

section \<open>Properties of the launch pings\<close>

lemma split_at_not_Nil: "split_at d s \<noteq> []"
  by (induction s) (auto split: list.splits)

lemma length_split_at: "length (split_at d s) = count_list s d + 1"
proof (induction s)
  case Nil
  show ?case by simp
next
  case (Cons c cs)
  then show ?case
    using split_at_not_Nil[of d cs] by (cases "split_at d cs") auto
qed

lemma HandlePing_ping_path:
  assumes "string_find path kLaunchWebStorePingURL \<noteq> None \<or>
           string_find path kLaunchAppPingURL \<noteq> None"
  shows "HandlePing SplitString path = Inl CheckFailed \<longleftrightarrow>
         length (SplitString path CHR ''+'') \<noteq> 2"
  using assms by (auto simp: HandlePing_def IsPromoActive_def Let_def split: sum.splits)

text \<open>
  Claim C10. For every path that contains \<open>record-app-launch\<close> or
  \<open>record-webstore-launch\<close>, \<open>HandlePing\<close> calls \<open>IsPromoActive\<close>, whose \<open>CHECK\<close> ends
  the process unless splitting the path on \<open>+\<close> gives exactly two parts. With a splitter
  that returns one more part than the path has separators, a ping path without exactly
  one \<open>+\<close> fails the check, and never returns false.
\<close>

theorem HandlePing_check_on_ping_paths:
  assumes ping: "string_find path kLaunchWebStorePingURL \<noteq> None \<or>
                 string_find path kLaunchAppPingURL \<noteq> None"
  shows "(HandlePing SplitString path = Inl CheckFailed \<longleftrightarrow>
            length (SplitString path CHR ''+'') \<noteq> 2) \<and>
         (length (SplitString path CHR ''+'') = count_list path CHR ''+'' + 1 \<longrightarrow>
            count_list path CHR ''+'' \<noteq> 1 \<longrightarrow>
            HandlePing SplitString path = Inl CheckFailed) \<and>
         (\<forall>samples. HandlePing SplitString path \<noteq> Inr (False, samples))"
proof (intro conjI)
  show iff: "HandlePing SplitString path = Inl CheckFailed \<longleftrightarrow>
             length (SplitString path CHR ''+'') \<noteq> 2"
    by (rule HandlePing_ping_path[OF ping])
  show "length (SplitString path CHR ''+'') = count_list path CHR ''+'' + 1 \<longrightarrow>
        count_list path CHR ''+'' \<noteq> 1 \<longrightarrow> HandlePing SplitString path = Inl CheckFailed"
    using iff by simp
  show "\<forall>samples. HandlePing SplitString path \<noteq> Inr (False, samples)"
    using ping by (auto simp: HandlePing_def split: sum.splits)
qed

theorem HandlePing_check_on_ping_paths_witness:
  "HandlePing plain_split ''record-app-launch'' = Inl CheckFailed \<and>
   HandlePing plain_split ''record-webstore-launch+true+x'' = Inl CheckFailed \<and>
   HandlePing plain_split ''record-app-launch+true'' \<noteq> Inl CheckFailed"
proof -
  have p1: "string_find ''record-app-launch'' kLaunchWebStorePingURL \<noteq> None \<or>
            string_find ''record-app-launch'' kLaunchAppPingURL \<noteq> None"
    by (simp add: kLaunchAppPingURL_def kLaunchWebStorePingURL_def)
  have p2: "string_find ''record-webstore-launch+true+x'' kLaunchWebStorePingURL \<noteq> None \<or>
            string_find ''record-webstore-launch+true+x'' kLaunchAppPingURL \<noteq> None"
    by (simp add: kLaunchAppPingURL_def kLaunchWebStorePingURL_def)
  have p3: "string_find ''record-app-launch+true'' kLaunchWebStorePingURL \<noteq> None \<or>
            string_find ''record-app-launch+true'' kLaunchAppPingURL \<noteq> None"
    by (simp add: kLaunchAppPingURL_def kLaunchWebStorePingURL_def)
  have l: "length (plain_split s CHR ''+'') = count_list s CHR ''+'' + 1" for s
    by (simp add: plain_split_def length_split_at)
  have c1: "count_list ''record-app-launch'' CHR ''+'' \<noteq> 1" by simp
  have c2: "count_list ''record-webstore-launch+true+x'' CHR ''+'' \<noteq> 1" by simp
  have c3: "length (plain_split ''record-app-launch+true'' CHR ''+'') = 2"
    by (simp add: l)
  show ?thesis
    using HandlePing_check_on_ping_paths[OF p1, of plain_split]
          HandlePing_check_on_ping_paths[OF p2, of plain_split]
          HandlePing_check_on_ping_paths[OF p3, of plain_split]
          l c1 c2 c3
    by simp
qed

section \<open>Properties of the device registry\<close>

lemma registry_ok_new: "registry_ok new_process"
  by (simp add: registry_ok_def new_process_def)

lemma detach_unregisters: "converters (factory (detach path s)) path = None"
  by (simp add: detach_def split: option.splits)

lemma registry_ok_detach:
  assumes "registry_ok s"
  shows "registry_ok (detach path s)"
proof (cases "converters (factory s) path")
  case None
  then show ?thesis using assms by (simp add: detach_def)
next
  case (Some a)
  from assms have d: "distinct (map fst (live_converters s))"
    and r: "\<And>b c. (b, c) \<in> set (live_converters s) \<Longrightarrow>
              converters (factory s) (conv_path c) = Some b \<and> b < next_address s"
    and m: "\<And>q b. converters (factory s) q = Some b \<Longrightarrow>
              \<exists>c. (b, c) \<in> set (live_converters s) \<and> conv_path c = q"
    by (auto simp: registry_ok_def)
  have uniq: "c = c'" if "(b, c) \<in> set (live_converters s)" "(b, c') \<in> set (live_converters s)" for b c c'
    using d that by (meson eq_key_imp_eq_value)
  show ?thesis
    unfolding registry_ok_def
  proof (intro conjI)
    show "distinct (map fst (live_converters (detach path s)))"
      using d Some by (simp add: detach_def distinct_map_filter)
    show "\<forall>(b, c)\<in>set (live_converters (detach path s)).
       converters (factory (detach path s)) (conv_path c) = Some b \<and> b < next_address (detach path s)"
      using Some r by (auto simp: detach_def)
    show "\<forall>q b. converters (factory (detach path s)) q = Some b \<longrightarrow>
       (\<exists>c. (b, c) \<in> set (live_converters (detach path s)) \<and> conv_path c = q)"
    proof (intro allI impI)
      fix q b assume h: "converters (factory (detach path s)) q = Some b"
      then have qp: "q \<noteq> path" using Some by (auto simp: detach_def split: if_splits)
      with h have hb: "converters (factory s) q = Some b" using Some by (simp add: detach_def)
      then obtain c where c: "(b, c) \<in> set (live_converters s)" "conv_path c = q" using m by blast
      have "b \<noteq> a"
      proof
        assume "b = a"
        from m[OF Some] obtain c' where c': "(a, c') \<in> set (live_converters s)" "conv_path c' = path" by blast
        with c \<open>b = a\<close> uniq have "c = c'" by blast
        with c c' qp show False by simp
      qed
      with c show "\<exists>c. (b, c) \<in> set (live_converters (detach path s)) \<and> conv_path c = q"
        using Some by (auto simp: detach_def)
    qed
  qed
qed

lemma registry_ok_attach:
  assumes "registry_ok s" "AttachInputDevice path outcome s = Inr s'"
  shows "registry_ok s'"
proof (cases outcome)
  case (Opened fd)
  let ?s1 = "detach path s"
  have ok1: "registry_ok ?s1" using assms(1) by (rule registry_ok_detach)
  then have d: "distinct (map fst (live_converters ?s1))"
    and r: "\<And>b c. (b, c) \<in> set (live_converters ?s1) \<Longrightarrow>
              converters (factory ?s1) (conv_path c) = Some b \<and> b < next_address ?s1"
    and m: "\<And>q b. converters (factory ?s1) q = Some b \<Longrightarrow>
              \<exists>c. (b, c) \<in> set (live_converters ?s1) \<and> conv_path c = q"
    by (auto simp: registry_ok_def)
  have none: "converters (factory ?s1) path = None" by (rule detach_unregisters)
  have s': "s' = ?s1\<lparr>factory := (factory ?s1)
                          \<lparr>converters := (converters (factory ?s1))(path \<mapsto> next_address ?s1)\<rparr>,
                        live_converters := live_converters ?s1
                          @ [(next_address ?s1, \<lparr>conv_path = path, conv_fd = fd\<rparr>)],
                        next_address := Suc (next_address ?s1)\<rparr>"
    using assms(2) Opened by (simp add: AttachInputDevice_def Let_def)
  have fresh: "next_address ?s1 \<notin> fst ` set (live_converters ?s1)"
    using r by force
  have other: "conv_path c \<noteq> path" if "(b, c) \<in> set (live_converters ?s1)" for b c
    using r[OF that] none by auto
  let ?n = "next_address ?s1"
  let ?new = "(?n, \<lparr>conv_path = path, conv_fd = fd\<rparr>)"
  have live': "live_converters s' = live_converters ?s1 @ [?new]"
    and conv': "converters (factory s') = (converters (factory ?s1))(path \<mapsto> ?n)"
    and next': "next_address s' = Suc ?n"
    by (simp_all add: s')
  have c1: "distinct (map fst (live_converters s'))"
    using d fresh by (simp add: live')
  have c2: "converters (factory s') (conv_path c) = Some b \<and> b < next_address s'"
    if "(b, c) \<in> set (live_converters s')" for b c
  proof (cases "(b, c) = ?new")
    case True
    then show ?thesis by (simp add: conv' next')
  next
    case False
    with that have old: "(b, c) \<in> set (live_converters ?s1)" by (auto simp: live')
    from other[OF old] r[OF old] show ?thesis by (simp add: conv' next')
  qed
  have c3: "\<exists>c. (b, c) \<in> set (live_converters s') \<and> conv_path c = q"
    if "converters (factory s') q = Some b" for q b
  proof (cases "q = path")
    case True
    with that have "b = ?n" by (simp add: conv')
    with True show ?thesis
      by (intro exI[of _ "\<lparr>conv_path = path, conv_fd = fd\<rparr>"]) (simp add: live')
  next
    case False
    with that have "converters (factory ?s1) q = Some b" by (simp add: conv')
    from m[OF this] show ?thesis by (auto simp: live')
  qed
  show ?thesis
    unfolding registry_ok_def using c1 c2 c3 by blast
next
  case (OpenFailed e)
  then have "s' = s\<lparr>error_log := error_log s @ [(path, e)]\<rparr>"
    using assms(2) by (simp add: AttachInputDevice_def)
  then show ?thesis using assms(1) by (simp add: registry_ok_def)
next
  case NotADevicePath
  then show ?thesis using assms(2) by (simp add: AttachInputDevice_def)
qed

lemma registry_ok_handle_event:
  "registry_ok s \<Longrightarrow> handle_event ev s = Inr s' \<Longrightarrow> registry_ok s'"
  by (cases ev) (auto simp: handle_event_def registry_ok_attach registry_ok_detach)

lemma registry_ok_run_events:
  "registry_ok s \<Longrightarrow> run_events evs s = Inr s' \<Longrightarrow> registry_ok s'"
proof (induction evs arbitrary: s)
  case Nil
  then show ?case by simp
next
  case (Cons ev evs)
  then show ?case
    by (auto split: sum.splits dest: registry_ok_handle_event)
qed

lemma live_for_at_most_one:
  assumes "registry_ok s"
  shows "length (live_for path s) \<le> 1"
proof -
  let ?xs = "map fst (live_for path s)"
  have d: "distinct ?xs"
    using assms by (simp add: registry_ok_def live_for_def distinct_map_filter)
  have "set ?xs \<subseteq> set_option (converters (factory s) path)"
    using assms by (auto simp: registry_ok_def live_for_def)
  then have "card (set ?xs) \<le> card (set_option (converters (factory s) path))"
    by (intro card_mono) auto
  also have "\<dots> \<le> 1" by (cases "converters (factory s) path") auto
  finally show ?thesis using distinct_card[OF d] by simp
qed

lemma live_for_registered:
  assumes "registry_ok s" "converters (factory s) path = Some a"
  shows "\<exists>c. live_for path s = [(a, c)]"
proof -
  from assms have "\<exists>c. (a, c) \<in> set (live_converters s) \<and> conv_path c = path"
    unfolding registry_ok_def by blast
  then obtain c where c: "(a, c) \<in> set (live_converters s)" "conv_path c = path"
    by blast
  then have "(a, c) \<in> set (live_for path s)" by (simp add: live_for_def)
  moreover have "length (live_for path s) \<le> 1" using assms(1) by (rule live_for_at_most_one)
  ultimately show ?thesis
    by (cases "live_for path s") auto
qed

lemma live_for_unregistered:
  assumes "registry_ok s" "converters (factory s) path = None"
  shows "live_for path s = []"
  using assms by (auto simp: registry_ok_def live_for_def filter_empty_conv)

lemma attach_registered_once:
  assumes ok: "registry_ok s" and reg: "converters (factory s) path \<noteq> None"
    and att: "AttachInputDevice path outcome s = Inr s'"
  shows "\<exists>a c. live_for path s' = [(a, c)] \<and> converters (factory s') path = Some a"
proof -
  have ok': "registry_ok s'" using ok att by (rule registry_ok_attach)
  have "converters (factory s') path \<noteq> None"
    using reg att by (cases outcome) (auto simp: AttachInputDevice_def Let_def)
  then obtain a where a: "converters (factory s') path = Some a" by blast
  from live_for_registered[OF ok' a] a show ?thesis by blast
qed

text \<open>
  Claim C1. After every sequence of attach and detach operations on a new factory (the
  states reached at every point of a sequence are the states reached by its prefixes,
  which are sequences too), no path has more than one live converter; and attaching a
  path that is already registered, whatever the open answers, leaves exactly one live
  converter for the path, the registered one.
\<close>

theorem registry_one_converter_per_path:
  assumes "run_events evs new_process = Inr s"
  shows "(\<forall>path. length (live_for path s) \<le> 1) \<and>
         (\<forall>path outcome s'.
            converters (factory s) path \<noteq> None \<longrightarrow>
            AttachInputDevice path outcome s = Inr s' \<longrightarrow>
            (\<exists>a c. live_for path s' = [(a, c)] \<and> converters (factory s') path = Some a))"
proof -
  have ok: "registry_ok s"
    using registry_ok_new assms by (rule registry_ok_run_events)
  show ?thesis
    using live_for_at_most_one[OF ok] attach_registered_once[OF ok] by blast
qed

lemma run_daemon_scenario:
  "run_events daemon_scenario new_process = Inr after_scenario"
  by (simp add: after_scenario_def daemon_scenario_def new_process_def handle_event_def
      AttachInputDevice_def detach_def Let_def)

lemma live_after_scenario:
  "live_converters after_scenario =
     [(1, \<lparr>conv_path = ''/dev/input/event5'', conv_fd = 4\<rparr>),
      (2, \<lparr>conv_path = ''/dev/input/event2'', conv_fd = 5\<rparr>)]"
  by (simp add: after_scenario_def daemon_scenario_def new_process_def handle_event_def
      AttachInputDevice_def detach_def Let_def)

lemma registered_after_scenario:
  "converters (factory after_scenario) ''/dev/input/event2'' = Some 2"
  by (simp add: after_scenario_def daemon_scenario_def new_process_def handle_event_def
      AttachInputDevice_def detach_def Let_def)

theorem registry_one_converter_per_path_witness:
  "length (live_for ''/dev/input/event2'' after_scenario) \<le> 1 \<and>
   live_for ''/dev/input/event2'' after_scenario
     = [(2, \<lparr>conv_path = ''/dev/input/event2'', conv_fd = 5\<rparr>)] \<and>
   live_for ''/dev/input/event5'' after_scenario
     = [(1, \<lparr>conv_path = ''/dev/input/event5'', conv_fd = 4\<rparr>)] \<and>
   (\<exists>s'. AttachInputDevice ''/dev/input/event2'' (Opened 6) after_scenario = Inr s' \<and>
         live_for ''/dev/input/event2'' s'
           = [(3, \<lparr>conv_path = ''/dev/input/event2'', conv_fd = 6\<rparr>)])"
proof -
  note t = registry_one_converter_per_path[OF run_daemon_scenario]
  have a: "length (live_for ''/dev/input/event2'' after_scenario) \<le> 1"
    using t by blast
  have b: "live_for ''/dev/input/event2'' after_scenario
     = [(2, \<lparr>conv_path = ''/dev/input/event2'', conv_fd = 5\<rparr>)]"
    by (simp add: live_for_def live_after_scenario)
  have c: "live_for ''/dev/input/event5'' after_scenario
     = [(1, \<lparr>conv_path = ''/dev/input/event5'', conv_fd = 4\<rparr>)]"
    by (simp add: live_for_def live_after_scenario)
  have d: "\<exists>s'. AttachInputDevice ''/dev/input/event2'' (Opened 6) after_scenario = Inr s' \<and>
         live_for ''/dev/input/event2'' s'
           = [(3, \<lparr>conv_path = ''/dev/input/event2'', conv_fd = 6\<rparr>)]"
    by (simp add: AttachInputDevice_def Let_def detach_def registered_after_scenario
        live_for_def live_after_scenario after_scenario_def daemon_scenario_def
        new_process_def handle_event_def)
  from a b c d show ?thesis by blast
qed

lemma manual_discovery_filter:
  "manual_discovery dir =
     map entry_path (filter (\<lambda>e. entry_is_chardev e \<and> is_input_node (entry_path e)) dir)"
  by (induction dir) simp_all

lemma attach_dom:
  assumes "AttachInputDevice path outcome s = Inr s'"
  shows "dom (converters (factory s')) =
         dom (converters (factory s)) \<union> (case outcome of Opened fd \<Rightarrow> {path} | _ \<Rightarrow> {})"
  using assms
  by (cases outcome) (auto simp: AttachInputDevice_def Let_def detach_def split: option.splits if_splits)

lemma run_adds_dom:
  assumes "run_events (map (\<lambda>path. Add path (od path)) paths) s = Inr s'"
  shows "dom (converters (factory s')) =
         dom (converters (factory s)) \<union> {path \<in> set paths. \<exists>fd. od path = Opened fd}"
  using assms
proof (induction paths arbitrary: s)
  case Nil
  then show ?case by simp
next
  case (Cons p ps)
  from Cons.prems obtain s1 where
    a: "AttachInputDevice p (od p) s = Inr s1" and
    r: "run_events (map (\<lambda>path. Add path (od path)) ps) s1 = Inr s'"
    by (auto simp: handle_event_def split: sum.splits)
  from attach_dom[OF a] Cons.IH[OF r] show ?case
    by (cases "od p") auto
qed

text \<open>
  Claim C4. The manual strategy passes once over the directory and yields, in order, the
  entries that are character devices with an input-node name; in a directory of
  character devices these are exactly the entries whose name matches. It attaches the
  paths it yields and is complete: the paths registered afterwards are those registered
  before and the yielded paths whose open succeeded, so a device that was not in the
  directory at the pass is not discovered.
\<close>

theorem manual_strategy_single_pass:
  "manual_discovery dir =
     map entry_path (filter (\<lambda>e. entry_is_chardev e \<and> is_input_node (entry_path e)) dir) \<and>
   ((\<forall>e \<in> set dir. entry_is_chardev e) \<longrightarrow>
      manual_discovery dir = filter is_input_node (map entry_path dir)) \<and>
   StartProcessingEventsManual dir od s =
     run_events (map (\<lambda>path. Add path (od path)) (manual_discovery dir)) s \<and>
   (\<forall>s'. StartProcessingEventsManual dir od s = Inr s' \<longrightarrow>
      dom (converters (factory s')) =
        dom (converters (factory s)) \<union> {path \<in> set (manual_discovery dir). \<exists>fd. od path = Opened fd})"
proof (intro conjI allI impI)
  show "manual_discovery dir =
     map entry_path (filter (\<lambda>e. entry_is_chardev e \<and> is_input_node (entry_path e)) dir)"
    by (rule manual_discovery_filter)
  show "manual_discovery dir = filter is_input_node (map entry_path dir)"
    if "\<forall>e \<in> set dir. entry_is_chardev e"
    using that by (induction dir) simp_all
  show "StartProcessingEventsManual dir od s =
     run_events (map (\<lambda>path. Add path (od path)) (manual_discovery dir)) s"
    by (simp add: StartProcessingEventsManual_def)
  fix s' assume "StartProcessingEventsManual dir od s = Inr s'"
  then show "dom (converters (factory s')) =
        dom (converters (factory s)) \<union> {path \<in> set (manual_discovery dir). \<exists>fd. od path = Opened fd}"
    unfolding StartProcessingEventsManual_def by (rule run_adds_dom)
qed

lemma example_discovery:
  "manual_discovery example_directory = [''/dev/input/event0'', ''/dev/input/event3'']"
  by (simp add: example_directory_def is_input_node_def)

theorem manual_strategy_single_pass_witness:
  "manual_discovery example_directory = [''/dev/input/event0'', ''/dev/input/event3''] \<and>
   (\<exists>s'. StartProcessingEventsManual example_directory (\<lambda>path. Opened 7) new_process = Inr s' \<and>
         dom (converters (factory s')) = {''/dev/input/event0'', ''/dev/input/event3''})"
proof -
  note t = manual_strategy_single_pass[of example_directory "\<lambda>path. Opened 7" new_process]
  obtain s' where s': "StartProcessingEventsManual example_directory (\<lambda>path. Opened 7) new_process = Inr s'"
    by (simp add: StartProcessingEventsManual_def example_discovery handle_event_def
        AttachInputDevice_def Let_def)
  with t have "dom (converters (factory s')) =
      dom (converters (factory new_process)) \<union>
      {path \<in> set (manual_discovery example_directory). \<exists>fd. (Opened 7 :: open_outcome) = Opened fd}"
    by blast
  then have "dom (converters (factory s')) = {''/dev/input/event0'', ''/dev/input/event3''}"
    by (auto simp: example_discovery new_process_def)
  with s' example_discovery show ?thesis by blast
qed



lemma detach_same_devices:
  "same_devices s t \<Longrightarrow> same_devices (detach path s) (detach path t)"
  by (auto simp: same_devices_def detach_def split: option.splits)

lemma handle_event_same_devices:
  assumes "same_devices s t"
  shows "rel_sum (=) same_devices (handle_event ev s) (handle_event ev t)"
proof (cases ev)
  case (Add path outcome)
  show ?thesis
  proof (cases outcome)
    case (Opened fd)
    from detach_same_devices[OF assms, of path] show ?thesis
      by (simp add: Add Opened handle_event_def AttachInputDevice_def Let_def same_devices_def)
  next
    case (OpenFailed e)
    with assms show ?thesis
      by (simp add: Add handle_event_def AttachInputDevice_def same_devices_def)
  next
    case NotADevicePath
    then show ?thesis by (simp add: Add handle_event_def AttachInputDevice_def)
  qed
next
  case (Remove path)
  with detach_same_devices[OF assms, of path] show ?thesis
    by (simp add: handle_event_def)
qed

lemma run_events_same_devices:
  "same_devices s t \<Longrightarrow> rel_sum (=) same_devices (run_events evs s) (run_events evs t)"
proof (induction evs arbitrary: s t)
  case Nil
  then show ?case by simp
next
  case (Cons ev evs)
  from handle_event_same_devices[OF Cons.prems, of ev] show ?case
    by (cases "handle_event ev s"; cases "handle_event ev t") (simp_all add: Cons.IH)
qed

lemma run_events_append:
  "run_events (evs1 @ evs2) s =
     (case run_events evs1 s of Inl f \<Rightarrow> Inl f | Inr s1 \<Rightarrow> run_events evs2 s1)"
  by (induction evs1 arbitrary: s) (auto split: sum.splits)

text \<open>
  Claim C5. When the device cannot be opened (permission denied, or the device vanished),
  \<open>AttachInputDevice\<close> returns normally with one more log entry and nothing else
  changed: the registry and the converters of the other devices are as before. The
  factory goes on: a sequence of events with the failed attach in it ends as the sequence
  without it does, up to the log.
\<close>

theorem failed_open_is_logged_and_skipped:
  "AttachInputDevice path (OpenFailed e) s = Inr (s\<lparr>error_log := error_log s @ [(path, e)]\<rparr>) \<and>
   rel_sum (=) same_devices
     (run_events (evs1 @ Add path (OpenFailed e) # evs2) s) (run_events (evs1 @ evs2) s)"
proof
  show "AttachInputDevice path (OpenFailed e) s = Inr (s\<lparr>error_log := error_log s @ [(path, e)]\<rparr>)"
    by (simp add: AttachInputDevice_def)
  show "rel_sum (=) same_devices
     (run_events (evs1 @ Add path (OpenFailed e) # evs2) s) (run_events (evs1 @ evs2) s)"
  proof (cases "run_events evs1 s")
    case (Inl f)
    then show ?thesis by (simp add: run_events_append)
  next
    case (Inr s1)
    have "same_devices (s1\<lparr>error_log := error_log s1 @ [(path, e)]\<rparr>) s1"
      by (simp add: same_devices_def)
    from run_events_same_devices[OF this, of evs2] Inr show ?thesis
      by (simp add: run_events_append handle_event_def AttachInputDevice_def)
  qed
qed

theorem failed_open_is_logged_and_skipped_witness:
  "AttachInputDevice ''/dev/input/event9'' (OpenFailed PermissionDenied) after_scenario
     = Inr (after_scenario\<lparr>error_log := [(''/dev/input/event9'', PermissionDenied)]\<rparr>) \<and>
   rel_sum (=) same_devices
     (run_events ([Add ''/dev/input/event2'' (Opened 3)]
        @ Add ''/dev/input/event9'' (OpenFailed DeviceVanished)
        # [Add ''/dev/input/event5'' (Opened 4)]) new_process)
     (run_events ([Add ''/dev/input/event2'' (Opened 3)] @ [Add ''/dev/input/event5'' (Opened 4)])
        new_process)"
proof -
  have "error_log after_scenario = []"
    by (simp add: after_scenario_def daemon_scenario_def new_process_def handle_event_def
      AttachInputDevice_def detach_def Let_def)
  then show ?thesis
    using failed_open_is_logged_and_skipped
      [of "''/dev/input/event9''" PermissionDenied after_scenario]
      failed_open_is_logged_and_skipped
      [of "''/dev/input/event9''" DeviceVanished new_process "[Add ''/dev/input/event2'' (Opened 3)]"
          "[Add ''/dev/input/event5'' (Opened 4)]"]
    by simp
qed




end
